theory Spec2Isabelle
  imports Main
begin

section \<open>Data model of parsecs.ts\<close>

text \<open>
  An entity is a number handed out by the counter \<open>nextId\<close>. A JavaScript number is
  a binary64 float: it holds every integer from \<open>0\<close> to \<open>2^53\<close> exactly, and
  \<open>2^53 + 1\<close> is not a binary64 value. The counter starts at \<open>0\<close> and is only ever
  changed by \<open>this.nextId++\<close>, so its values are integers from \<open>0\<close> to \<open>2^53\<close>
  and are modelled as natural numbers, with the addition of \<open>++\<close> written out: below
  \<open>2^53\<close> it adds one, and at \<open>2^53\<close> the sum \<open>2^53 + 1\<close> is rounded to the nearest
  binary64 value, ties to even, which is \<open>2^53\<close> again. A type tag is a string. A
  component is an object with its tag in the field \<open>type\<close> and further fields, the
  payload \<open>props\<close>.
\<close>

type_synonym entity = nat

definition float_exact_limit :: nat where
  "float_exact_limit = 2 ^ 53"

definition js_increment :: "nat \<Rightarrow> nat" where
  "js_increment n = (if n < float_exact_limit then n + 1 else n)"

type_synonym tag = string

datatype 'p component = Component (ctype: tag) (props: 'p)

subsection \<open>Insertion-ordered Map and Set\<close>

text \<open>
  A JavaScript \<open>Map\<close> iterates in insertion order: \<open>set\<close> on a key that is present
  replaces the value where it stands, \<open>set\<close> on a new key appends, \<open>delete\<close> takes
  the entry out. It is modelled as the list of its entries in iteration order. A
  \<open>Set\<close> is the list of its elements in insertion order.
\<close>

type_synonym ('k, 'v) jsmap = "('k \<times> 'v) list"

definition jsmap_get :: "'k \<Rightarrow> ('k, 'v) jsmap \<Rightarrow> 'v option" where
  "jsmap_get k m = map_of m k"

definition jsmap_has :: "'k \<Rightarrow> ('k, 'v) jsmap \<Rightarrow> bool" where
  "jsmap_has k m = (map_of m k \<noteq> None)"

fun jsmap_set :: "'k \<Rightarrow> 'v \<Rightarrow> ('k, 'v) jsmap \<Rightarrow> ('k, 'v) jsmap" where
  "jsmap_set k v [] = [(k, v)]"
| "jsmap_set k v (p # m) = (if fst p = k then (k, v) # m else p # jsmap_set k v m)"

definition jsmap_delete :: "'k \<Rightarrow> ('k, 'v) jsmap \<Rightarrow> ('k, 'v) jsmap" where
  "jsmap_delete k m = filter (\<lambda>p. fst p \<noteq> k) m"

definition jsmap_keys :: "('k, 'v) jsmap \<Rightarrow> 'k list" where
  "jsmap_keys m = map fst m"

definition jsset_add :: "'a \<Rightarrow> 'a list \<Rightarrow> 'a list" where
  "jsset_add x s = (if x \<in> set s then s else s @ [x])"

definition jsset_delete :: "'a \<Rightarrow> 'a list \<Rightarrow> 'a list" where
  "jsset_delete x s = filter (\<lambda>y. y \<noteq> x) s"

subsection \<open>The application object\<close>

text \<open>
  The fields of class \<open>App\<close>. A system is a callback; the lists hold the callbacks by
  identity (\<open>removeSystem\<close> compares with \<open>===\<close>), so a list entry is an identifier
  of type \<open>'s\<close>, and what a callback does to the application it is called on is given
  separately, by a function \<open>sem\<close> from identifiers to state transformers.
\<close>

type_synonym 'p store = "(tag, (entity, 'p component) jsmap) jsmap"

record ('s, 'p, 'r) app =
  entities :: "entity list"
  components :: "'p store"
  startupSystems :: "'s list"
  systems :: "'s list"
  nextId :: nat
  resources :: 'r
  running :: bool

definition createApp :: "'r \<Rightarrow> ('s, 'p, 'r) app" where
  "createApp res =
     \<lparr>entities = [], components = [], startupSystems = [], systems = [],
      nextId = 0, resources = res, running = False\<rparr>"

subsection \<open>Component store operations\<close>

text \<open>
  \<open>this.components.get(type)?.f(...)\<close>: when the tag has a sub-map, the sub-map object
  is changed in place, so the outer map keeps the entry where it is.
\<close>

definition on_submap ::
  "tag \<Rightarrow> ((entity, 'p component) jsmap \<Rightarrow> (entity, 'p component) jsmap) \<Rightarrow> 'p store \<Rightarrow> 'p store" where
  "on_submap ty f cs =
     (case jsmap_get ty cs of None \<Rightarrow> cs | Some sub \<Rightarrow> jsmap_set ty (f sub) cs)"

definition addComponent ::
  "('s, 'p, 'r) app \<Rightarrow> entity \<Rightarrow> 'p component \<Rightarrow> ('s, 'p, 'r) app" where
  "addComponent app entity component =
     (let ty = ctype component;
          cs = (if \<not> jsmap_has ty (components app)
                then jsmap_set ty [] (components app) else components app)
      in app\<lparr>components := on_submap ty (jsmap_set entity component) cs\<rparr>)"

fun addComponents ::
  "('s, 'p, 'r) app \<Rightarrow> entity \<Rightarrow> 'p component list \<Rightarrow> ('s, 'p, 'r) app" where
  "addComponents app entity [] = app"
| "addComponents app entity (c # rest) = addComponents (addComponent app entity c) entity rest"

text \<open>\<open>addEntity\<close> returns the new id (the field \<open>id\<close> of its result) and the state.\<close>

definition addEntity ::
  "('s, 'p, 'r) app \<Rightarrow> 'p component list \<Rightarrow> entity \<times> ('s, 'p, 'r) app" where
  "addEntity app comps =
     (let ident = nextId app;
          app1 = app\<lparr>nextId := js_increment (nextId app)\<rparr>;
          app2 = app1\<lparr>entities := jsset_add ident (entities app1)\<rparr>
      in (ident, addComponents app2 ident comps))"

definition removeComponent ::
  "('s, 'p, 'r) app \<Rightarrow> entity \<Rightarrow> tag \<Rightarrow> ('s, 'p, 'r) app" where
  "removeComponent app entity componentType =
     app\<lparr>components := on_submap componentType (jsmap_delete entity) (components app)\<rparr>"

fun removeEntity_loop :: "tag list \<Rightarrow> entity \<Rightarrow> 'p store \<Rightarrow> 'p store" where
  "removeEntity_loop [] entity cs = cs"
| "removeEntity_loop (ty # tys) entity cs =
     removeEntity_loop tys entity (on_submap ty (jsmap_delete entity) cs)"

definition removeEntity :: "('s, 'p, 'r) app \<Rightarrow> entity \<Rightarrow> ('s, 'p, 'r) app" where
  "removeEntity app entity =
     (let app1 = app\<lparr>components :=
                   removeEntity_loop (jsmap_keys (components app)) entity (components app)\<rparr>
      in app1\<lparr>entities := jsset_delete entity (entities app1)\<rparr>)"

text \<open>\<open>undefined\<close> is \<open>None\<close>.\<close>

definition getComponent ::
  "('s, 'p, 'r) app \<Rightarrow> entity \<Rightarrow> tag \<Rightarrow> 'p component option" where
  "getComponent app ident ty =
     (case jsmap_get ty (components app) of None \<Rightarrow> None | Some sub \<Rightarrow> jsmap_get ident sub)"

definition hasComponent :: "('s, 'p, 'r) app \<Rightarrow> entity \<Rightarrow> tag \<Rightarrow> bool" where
  "hasComponent app ident ty =
     (case jsmap_get ty (components app) of None \<Rightarrow> False | Some sub \<Rightarrow> jsmap_has ident sub)"

definition getEntities :: "('s, 'p, 'r) app \<Rightarrow> entity list" where
  "getEntities app = entities app"

subsection \<open>System registry\<close>

definition addSystem :: "('s, 'p, 'r) app \<Rightarrow> 's \<Rightarrow> ('s, 'p, 'r) app" where
  "addSystem app system = app\<lparr>systems := systems app @ [system]\<rparr>"

definition addStartupSystem :: "('s, 'p, 'r) app \<Rightarrow> 's \<Rightarrow> ('s, 'p, 'r) app" where
  "addStartupSystem app system = app\<lparr>startupSystems := startupSystems app @ [system]\<rparr>"

text \<open>The loop of \<open>removeSystem\<close>: splice out the first entry identical to \<open>system\<close>.\<close>

fun splice_first :: "'s \<Rightarrow> 's list \<Rightarrow> 's list" where
  "splice_first system [] = []"
| "splice_first system (s # ss) = (if s = system then ss else s # splice_first system ss)"

definition removeSystem :: "('s, 'p, 'r) app \<Rightarrow> 's \<Rightarrow> bool \<Rightarrow> ('s, 'p, 'r) app" where
  "removeSystem app system startup =
     (if startup then app\<lparr>startupSystems := splice_first system (startupSystems app)\<rparr>
      else app\<lparr>systems := splice_first system (systems app)\<rparr>)"

definition clearEntities :: "('s, 'p, 'r) app \<Rightarrow> ('s, 'p, 'r) app" where
  "clearEntities app = app\<lparr>entities := [], components := []\<rparr>"

definition clearSystems :: "('s, 'p, 'r) app \<Rightarrow> ('s, 'p, 'r) app" where
  "clearSystems app = app\<lparr>systems := [], startupSystems := []\<rparr>"

definition clear :: "('s, 'p, 'r) app \<Rightarrow> ('s, 'p, 'r) app" where
  "clear app = clearSystems (clearEntities app)"

definition stop :: "('s, 'p, 'r) app \<Rightarrow> ('s, 'p, 'r) app" where
  "stop app = app\<lparr>running := False\<rparr>"

section \<open>The query engine\<close>

text \<open>
  A result tuple is a JavaScript array. A slot holds \<open>undefined\<close> (also what a hole
  of \<open>new Array(n)\<close> reads as), a reference to a component, or an entity id.
\<close>

datatype 'p slot = Undefined | CompRef "'p component" | EntityId entity

definition slot_of :: "'p component option \<Rightarrow> 'p slot" where
  "slot_of r = (case r of None \<Rightarrow> Undefined | Some c \<Rightarrow> CompRef c)"

definition new_Array :: "nat \<Rightarrow> 'p slot list" where
  "new_Array n = replicate n Undefined"

text \<open>\<open>tuple[i] = v\<close>: an index past the end makes the array longer.\<close>

definition array_set :: "'p slot list \<Rightarrow> nat \<Rightarrow> 'p slot \<Rightarrow> 'p slot list" where
  "array_set tuple i v =
     (if i < length tuple then tuple[i := v]
      else tuple @ replicate (i - length tuple) Undefined @ [v])"

function storeQueryTuple_loop ::
  "('s, 'p, 'r) app \<Rightarrow> tag list \<Rightarrow> entity \<Rightarrow> nat \<Rightarrow> 'p slot list \<Rightarrow> 'p slot list" where
  "storeQueryTuple_loop app types entity i tuple =
     (if i < length types
      then storeQueryTuple_loop app types entity (Suc i)
             (array_set tuple i (slot_of (getComponent app entity (types ! i))))
      else tuple)"
  by pat_completeness auto
termination
  by (relation "measure (\<lambda>(app, types, entity, i, tuple). length types - i)") auto

declare storeQueryTuple_loop.simps [simp del]

text \<open>
  \<open>types[0]\<close> of an empty list is \<open>undefined\<close>, which is no key of the store, so the
  lookup gives \<open>undefined\<close>.
\<close>

definition storeQueryTuple ::
  "('s, 'p, 'r) app \<Rightarrow> tag list \<Rightarrow> entity \<Rightarrow> 'p slot list \<Rightarrow> 'p slot list" where
  "storeQueryTuple app types entity tuple =
     (let tuple0 = array_set tuple 0
            (case types of [] \<Rightarrow> Undefined | t0 # _ \<Rightarrow> slot_of (getComponent app entity t0));
          tuple1 = storeQueryTuple_loop app types entity 1 tuple0
      in array_set tuple1 (length types) (EntityId entity))"

function checkRemainingComponents_loop ::
  "('s, 'p, 'r) app \<Rightarrow> entity \<Rightarrow> tag list \<Rightarrow> nat \<Rightarrow> bool" where
  "checkRemainingComponents_loop app entity types i =
     (if i < length types
      then (if \<not> hasComponent app entity (types ! i) then False
            else checkRemainingComponents_loop app entity types (Suc i))
      else True)"
  by pat_completeness auto
termination
  by (relation "measure (\<lambda>(app, entity, types, i). length types - i)") auto

declare checkRemainingComponents_loop.simps [simp del]

definition checkRemainingComponents ::
  "('s, 'p, 'r) app \<Rightarrow> entity \<Rightarrow> tag list \<Rightarrow> bool" where
  "checkRemainingComponents app entity types = checkRemainingComponents_loop app entity types 1"

text \<open>
  \<open>this.components.get(types[0])?.keys()\<close>: the keys of the anchor's sub-map in
  iteration order; no sub-map, no candidates.
\<close>

definition anchor_keys :: "('s, 'p, 'r) app \<Rightarrow> tag list \<Rightarrow> entity list" where
  "anchor_keys app types =
     (case types of [] \<Rightarrow> []
      | t0 # _ \<Rightarrow> (case jsmap_get t0 (components app) of None \<Rightarrow> [] | Some sub \<Rightarrow> jsmap_keys sub))"

fun query_loop ::
  "('s, 'p, 'r) app \<Rightarrow> tag list \<Rightarrow> entity list \<Rightarrow> 'p slot list list \<Rightarrow> 'p slot list list" where
  "query_loop app types [] tuples = tuples"
| "query_loop app types (entity # rest) tuples =
     (if checkRemainingComponents app entity types
      then query_loop app types rest
             (tuples @ [storeQueryTuple app types entity (new_Array (length types + 1))])
      else query_loop app types rest tuples)"

definition query :: "('s, 'p, 'r) app \<Rightarrow> tag list \<Rightarrow> 'p slot list list" where
  "query app types = query_loop app types (anchor_keys app types) []"

text \<open>
  The result in the words of the specification: the entities that hold a component of
  every listed type, in the iteration order of the anchor's sub-map, and for each of them
  the tuple of its components in the order of the list, with the entity id last.
\<close>

definition query_matches :: "('s, 'p, 'r) app \<Rightarrow> tag list \<Rightarrow> entity list" where
  "query_matches app types =
     filter (\<lambda>e. list_all (hasComponent app e) types) (anchor_keys app types)"

definition tuple_of :: "('s, 'p, 'r) app \<Rightarrow> tag list \<Rightarrow> entity \<Rightarrow> 'p slot list" where
  "tuple_of app types e = map (\<lambda>t. slot_of (getComponent app e t)) types @ [EntityId e]"

subsection \<open>The lazy query and its one tuple buffer\<close>

text \<open>
  \<open>queryIter\<close> allocates one array and yields a reference to it at every match, after
  overwriting it. The arrays live in a heap, a list indexed by address. The generator is
  driven to completion by a \<open>for ... of\<close> loop whose body is \<open>on_yield\<close>: it gets the
  yielded reference and the heap as it is at that moment, and updates the consumer's
  accumulator. The store is not changed while the generator runs.
\<close>

type_synonym 'p heap = "'p slot list list"

fun queryIter_loop ::
  "('s, 'p, 'r) app \<Rightarrow> tag list \<Rightarrow> nat \<Rightarrow> (nat \<Rightarrow> 'p heap \<Rightarrow> 'acc \<Rightarrow> 'acc) \<Rightarrow>
   entity list \<Rightarrow> 'p heap \<times> 'acc \<Rightarrow> 'p heap \<times> 'acc" where
  "queryIter_loop app types tuple on_yield [] st = st"
| "queryIter_loop app types tuple on_yield (entity # rest) st =
     (if checkRemainingComponents app entity types
      then (let h = (fst st)[tuple := storeQueryTuple app types entity (fst st ! tuple)]
            in queryIter_loop app types tuple on_yield rest (h, on_yield tuple h (snd st)))
      else queryIter_loop app types tuple on_yield rest st)"

definition queryIter ::
  "('s, 'p, 'r) app \<Rightarrow> tag list \<Rightarrow> (nat \<Rightarrow> 'p heap \<Rightarrow> 'acc \<Rightarrow> 'acc) \<Rightarrow>
   'p heap \<times> 'acc \<Rightarrow> 'p heap \<times> 'acc" where
  "queryIter app types on_yield st =
     (let tuple = length (fst st);
          h = fst st @ [new_Array (length types + 1)]
      in queryIter_loop app types tuple on_yield (anchor_keys app types) (h, snd st))"

text \<open>
  Two consumers. \<open>Array.from(app.queryIter(types))\<close> keeps the yielded references and
  the caller reads the arrays afterwards. A loop that copies each tuple when it is
  yielded, \<open>for (const t of app.queryIter(types)) out.push([...t])\<close>, reads the buffer
  before the generator is advanced.
\<close>

definition Array_from_queryIter ::
  "('s, 'p, 'r) app \<Rightarrow> tag list \<Rightarrow> 'p heap \<Rightarrow> 'p slot list list" where
  "Array_from_queryIter app types h0 =
     (let (h, refs) = queryIter app types (\<lambda>tuple h acc. acc @ [tuple]) (h0, [])
      in map (\<lambda>a. h ! a) refs)"

definition copy_each_queryIter ::
  "('s, 'p, 'r) app \<Rightarrow> tag list \<Rightarrow> 'p heap \<Rightarrow> 'p slot list list" where
  "copy_each_queryIter app types h0 =
     snd (queryIter app types (\<lambda>tuple h acc. acc @ [h ! tuple]) (h0, []))"

subsection \<open>The memoizing wrapper\<close>

text \<open>The closure of \<open>cacheQuery\<close>: its argument and the variable \<open>cache\<close>.\<close>

record 'p cached_query =
  cq_query :: "tag list"
  cache :: "'p slot list list option"

definition cacheQuery :: "tag list \<Rightarrow> 'p cached_query" where
  "cacheQuery q = \<lparr>cq_query = q, cache = None\<rparr>"

definition cq_invalidate :: "'p cached_query \<Rightarrow> 'p cached_query" where
  "cq_invalidate c = c\<lparr>cache := None\<rparr>"

definition cq_get ::
  "'p cached_query \<Rightarrow> ('s, 'p, 'r) app \<Rightarrow> 'p slot list list \<times> 'p cached_query" where
  "cq_get c app =
     (case cache c of
        None \<Rightarrow> (let r = query app (cq_query c) in (r, c\<lparr>cache := Some r\<rparr>))
      | Some r \<Rightarrow> (r, c))"

section \<open>Systems and the scheduler\<close>

text \<open>
  \<open>combineSystems(...systems)\<close> closes over the array of its arguments, which nothing
  else can reach, so the array is a list that never changes. A system is the state
  transformer it performs on the handle it is given.
\<close>

function combineSystems_loop :: "('a \<Rightarrow> 'a) list \<Rightarrow> nat \<Rightarrow> 'a \<Rightarrow> 'a" where
  "combineSystems_loop syss i app =
     (if i < length syss then combineSystems_loop syss (Suc i) ((syss ! i) app) else app)"
  by pat_completeness auto
termination
  by (relation "measure (\<lambda>(syss, i, app). length syss - i)") auto

declare combineSystems_loop.simps [simp del]

definition combineSystems :: "('a \<Rightarrow> 'a) list \<Rightarrow> 'a \<Rightarrow> 'a" where
  "combineSystems syss = (\<lambda>app. combineSystems_loop syss 0 app)"

text \<open>
  \<open>step\<close> reads \<open>this.systems.length\<close> and \<open>this.systems[i]\<close> afresh at every turn, so
  a system that changes the list changes what the loop does next, and the loop need not
  end: the result is an option, \<open>None\<close> for a loop that never returns. Beside the state
  the model returns the list of the systems the loop called, in call order.
\<close>

partial_function (option) step_loop ::
  "('s \<Rightarrow> ('s, 'p, 'r) app \<Rightarrow> ('s, 'p, 'r) app) \<Rightarrow> nat \<Rightarrow> 's list \<Rightarrow> ('s, 'p, 'r) app \<Rightarrow>
   ('s list \<times> ('s, 'p, 'r) app) option" where
  "step_loop sem i calls app =
     (if i < length (systems app)
      then step_loop sem (Suc i) (calls @ [systems app ! i]) (sem (systems app ! i) app)
      else Some (calls, app))"

definition step ::
  "('s \<Rightarrow> ('s, 'p, 'r) app \<Rightarrow> ('s, 'p, 'r) app) \<Rightarrow> ('s, 'p, 'r) app \<Rightarrow>
   ('s list \<times> ('s, 'p, 'r) app) option" where
  "step sem app = step_loop sem 0 [] app"

text \<open>
  \<open>this.startupSystems.forEach(...)\<close> takes the length of the array once, before the
  first call, and at every index \<open>k\<close> below it calls the callback on the element that
  is at \<open>k\<close> then, if there is one. So a system added by \<open>addStartupSystem\<close> during
  the walk is not called, and after a \<open>removeSystem\<close> during the walk, which splices the
  array in place, the later systems have moved down one index and the indices past the
  new end are skipped. The walk always ends. The array walked is read from the field: a
  startup system that calls \<open>clearSystems\<close> or \<open>clear\<close> puts a new array in the
  field while the walk of the source goes on over the old one, and there the model,
  which reads the new one, differs from the source.
\<close>

function forEach_startup ::
  "('s \<Rightarrow> ('s, 'p, 'r) app \<Rightarrow> ('s, 'p, 'r) app) \<Rightarrow> nat \<Rightarrow> nat \<Rightarrow> 's list \<Rightarrow> ('s, 'p, 'r) app \<Rightarrow>
   's list \<times> ('s, 'p, 'r) app" where
  "forEach_startup sem len k calls app =
     (if k < len
      then (if k < length (startupSystems app)
            then forEach_startup sem len (Suc k) (calls @ [startupSystems app ! k])
                   (sem (startupSystems app ! k) app)
            else forEach_startup sem len (Suc k) calls app)
      else (calls, app))"
  by pat_completeness auto
termination
  by (relation "measure (\<lambda>(sem, len, k, calls, app). len - k)") auto

declare forEach_startup.simps [simp del]

text \<open>
  \<open>loop\<close>: one frame. The third component of the result says whether
  \<open>requestAnimationFrame(this.loop)\<close> was called, that is, whether the host will call
  \<open>loop\<close> again.
\<close>

definition loop ::
  "('s \<Rightarrow> ('s, 'p, 'r) app \<Rightarrow> ('s, 'p, 'r) app) \<Rightarrow> ('s, 'p, 'r) app \<Rightarrow>
   ('s list \<times> ('s, 'p, 'r) app \<times> bool) option" where
  "loop sem app =
     (if running app
      then (case step sem app of None \<Rightarrow> None | Some (calls, app') \<Rightarrow> Some (calls, app', True))
      else Some ([], app, False))"

definition run ::
  "('s \<Rightarrow> ('s, 'p, 'r) app \<Rightarrow> ('s, 'p, 'r) app) \<Rightarrow> ('s, 'p, 'r) app \<Rightarrow>
   ('s list \<times> ('s, 'p, 'r) app \<times> bool) option" where
  "run sem app =
     (let app0 = app\<lparr>running := True\<rparr>;
          started = forEach_startup sem (length (startupSystems app0)) 0 [] app0
      in case loop sem (snd started) of
           None \<Rightarrow> None
         | Some (calls', app2, requested) \<Rightarrow> Some (fst started @ calls', app2, requested))"

text \<open>\<open>n\<close> calls of \<open>step\<close> in a row, with the calls they made.\<close>

fun steps ::
  "('s \<Rightarrow> ('s, 'p, 'r) app \<Rightarrow> ('s, 'p, 'r) app) \<Rightarrow> nat \<Rightarrow> ('s, 'p, 'r) app \<Rightarrow>
   ('s list \<times> ('s, 'p, 'r) app) option" where
  "steps sem 0 app = Some ([], app)"
| "steps sem (Suc n) app =
     (case step sem app of
        None \<Rightarrow> None
      | Some (calls, app') \<Rightarrow>
          (case steps sem n app' of
             None \<Rightarrow> None
           | Some (calls', app'') \<Rightarrow> Some (calls @ calls', app'')))"

text \<open>A system that leaves both system lists as it found them.\<close>

definition registry_stable :: "('s \<Rightarrow> ('s, 'p, 'r) app \<Rightarrow> ('s, 'p, 'r) app) \<Rightarrow> bool" where
  "registry_stable sem =
     (\<forall>s app. systems (sem s app) = systems app \<and> startupSystems (sem s app) = startupSystems app)"

section \<open>Sequences of public operations\<close>

text \<open>
  The public operations on the store and the registry, as commands. \<open>Start\<close> is the
  assignment \<open>this.running = true\<close> of \<open>run\<close>. \<open>exec\<close> gives the id an \<open>addEntity\<close>
  returns, and the new state; \<open>run_ops\<close> runs a sequence and lists the ids returned,
  in order.
\<close>

datatype ('s, 'p) op =
    AddEntity "'p component list"
  | AddComponent entity "'p component"
  | RemoveComponent entity tag
  | RemoveEntity entity
  | AddSystem 's
  | AddStartupSystem 's
  | RemoveSystem 's bool
  | ClearEntities
  | ClearSystems
  | Clear
  | Start
  | Stop

fun exec :: "('s, 'p) op \<Rightarrow> ('s, 'p, 'r) app \<Rightarrow> entity option \<times> ('s, 'p, 'r) app" where
  "exec (AddEntity comps) app = (Some (fst (addEntity app comps)), snd (addEntity app comps))"
| "exec (AddComponent e c) app = (None, addComponent app e c)"
| "exec (RemoveComponent e ty) app = (None, removeComponent app e ty)"
| "exec (RemoveEntity e) app = (None, removeEntity app e)"
| "exec (AddSystem s) app = (None, addSystem app s)"
| "exec (AddStartupSystem s) app = (None, addStartupSystem app s)"
| "exec (RemoveSystem s startup) app = (None, removeSystem app s startup)"
| "exec ClearEntities app = (None, clearEntities app)"
| "exec ClearSystems app = (None, clearSystems app)"
| "exec Clear app = (None, clear app)"
| "exec Start app = (None, app\<lparr>running := True\<rparr>)"
| "exec Stop app = (None, stop app)"

fun run_ops :: "('s, 'p) op list \<Rightarrow> ('s, 'p, 'r) app \<Rightarrow> entity list \<times> ('s, 'p, 'r) app" where
  "run_ops [] app = ([], app)"
| "run_ops (c # cs) app =
     (let (r, app') = exec c app;
          (ids, app'') = run_ops cs app'
      in ((case r of None \<Rightarrow> [] | Some i \<Rightarrow> [i]) @ ids, app''))"

inductive reachable :: "('s, 'p, 'r) app \<Rightarrow> bool" where
  reachable_init: "reachable (createApp res)"
| reachable_exec: "reachable app \<Longrightarrow> reachable (snd (exec c app))"

text \<open>
  What the store keeps true: a \<open>Map\<close> has each key once, and a component sits in the
  sub-map of its own tag.
\<close>

definition submap_ok :: "tag \<times> (entity, 'p component) jsmap \<Rightarrow> bool" where
  "submap_ok p = (distinct (jsmap_keys (snd p)) \<and> list_all (\<lambda>q. ctype (snd q) = fst p) (snd p))"

definition store_ok :: "'p store \<Rightarrow> bool" where
  "store_ok cs = (distinct (jsmap_keys cs) \<and> list_all submap_ok cs)"

text \<open>
  The store of the specification's example: entity 0 holds a body and a shape, entity 1
  a body, a movement and a shape, entity 2 a shape. The payloads are numbers.
\<close>

definition example_store :: "(nat, nat, unit) app" where
  "example_store =
     snd (addEntity (snd (addEntity (snd (addEntity (createApp ())
       [Component ''body'' 10, Component ''shape'' 11]))
       [Component ''body'' 20, Component ''movement'' 21, Component ''shape'' 22]))
       [Component ''shape'' 31])"

text \<open>
  A single \<open>run\<close> followed by \<open>n\<close> calls of \<open>step\<close>, with all the calls made.
\<close>

definition run_then_steps ::
  "('s \<Rightarrow> ('s, 'p, 'r) app \<Rightarrow> ('s, 'p, 'r) app) \<Rightarrow> nat \<Rightarrow> ('s, 'p, 'r) app \<Rightarrow>
   ('s list \<times> ('s, 'p, 'r) app) option" where
  "run_then_steps sem n app =
     (case run sem app of
        None \<Rightarrow> None
      | Some (calls, app1, requested) \<Rightarrow>
          (case steps sem n app1 of
             None \<Rightarrow> None
           | Some (calls', app2) \<Rightarrow> Some (calls @ calls', app2)))"

text \<open>
  Example systems and applications. Every system of \<open>spawner_sem\<close> adds an entity.
  In \<open>remover_sem\<close> system 0 is \<open>app => app.removeSystem(s0)\<close>, a system that takes
  itself off the list, and every other system adds an entity. \<open>two_systems\<close> has the
  per-step systems 0 and 1; \<open>startup_and_system\<close> has the startup system 0 and the
  per-step system 1.
\<close>

definition spawner_sem :: "nat \<Rightarrow> (nat, unit, unit) app \<Rightarrow> (nat, unit, unit) app" where
  "spawner_sem s app = snd (addEntity app [])"

definition remover_sem :: "nat \<Rightarrow> (nat, unit, unit) app \<Rightarrow> (nat, unit, unit) app" where
  "remover_sem s app = (if s = 0 then removeSystem app 0 False else snd (addEntity app []))"

definition two_systems :: "(nat, unit, unit) app" where
  "two_systems = addSystem (addSystem (createApp ()) 0) 1"

definition startup_and_system :: "(nat, unit, unit) app" where
  "startup_and_system = addSystem (addStartupSystem (createApp ()) 0) 1"

section \<open>Facts about the Map model and the store\<close>

lemma map_of_jsmap_set: "map_of (jsmap_set k v m) = (map_of m)(k \<mapsto> v)"
  by (induction m) (auto simp: fun_eq_iff)

lemma jsmap_set_same: "map_of m k = Some v \<Longrightarrow> jsmap_set k v m = m"
  by (induction m) (auto split: if_splits)

lemma map_of_jsmap_delete: "map_of (jsmap_delete k m) = (map_of m)(k := None)"
  by (induction m) (auto simp: jsmap_delete_def fun_eq_iff)

lemma jsmap_delete_absent: "map_of m k = None \<Longrightarrow> jsmap_delete k m = m"
  by (induction m) (auto simp: jsmap_delete_def split: if_splits)

lemma keys_jsmap_set:
  "jsmap_keys (jsmap_set k v m) = (if k \<in> set (jsmap_keys m) then jsmap_keys m else jsmap_keys m @ [k])"
  by (induction m) (auto simp: jsmap_keys_def)

lemma keys_jsmap_delete: "jsmap_keys (jsmap_delete k m) = filter (\<lambda>x. x \<noteq> k) (jsmap_keys m)"
  by (induction m) (auto simp: jsmap_keys_def jsmap_delete_def)

lemma map_of_on_submap:
  "map_of (on_submap ty f cs) = (\<lambda>t. if t = ty then map_option f (map_of cs ty) else map_of cs t)"
  by (auto simp: on_submap_def jsmap_get_def map_of_jsmap_set fun_eq_iff split: option.splits)

lemma keys_jsmap_set_present:
  "map_of m k = Some w \<Longrightarrow> jsmap_keys (jsmap_set k v m) = jsmap_keys m"
  by (induction m) (auto simp: jsmap_keys_def split: if_splits)

lemma keys_on_submap: "jsmap_keys (on_submap ty f cs) = jsmap_keys cs"
  by (auto simp: on_submap_def jsmap_get_def keys_jsmap_set_present split: option.splits)

lemma map_of_removeEntity_loop:
  "map_of (removeEntity_loop tys e cs) =
     (\<lambda>t. if t \<in> set tys then map_option (jsmap_delete e) (map_of cs t) else map_of cs t)"
proof (induction tys arbitrary: cs)
  case Nil
  show ?case by simp
next
  case (Cons ty tys)
  have idem: "\<And>sub. jsmap_delete e (jsmap_delete e sub) = jsmap_delete e sub"
    by (simp add: jsmap_delete_def)
  show ?case
    by (auto simp: Cons.IH map_of_on_submap fun_eq_iff option.map_comp comp_def idem
        split: option.splits)
qed

lemma keys_removeEntity_loop: "jsmap_keys (removeEntity_loop tys e cs) = jsmap_keys cs"
  by (induction tys arbitrary: cs) (auto simp: keys_on_submap)

lemma map_of_removeEntity:
  "map_of (components (removeEntity app e)) t = map_option (jsmap_delete e) (map_of (components app) t)"
proof (cases "map_of (components app) t")
  case None
  then show ?thesis
    by (simp add: removeEntity_def Let_def map_of_removeEntity_loop)
next
  case (Some sub)
  then have "t \<in> set (jsmap_keys (components app))"
    by (auto simp: jsmap_keys_def dest: map_of_SomeD intro: rev_image_eqI)
  then show ?thesis
    by (simp add: removeEntity_def Let_def map_of_removeEntity_loop)
qed

lemma getComponent_removeEntity:
  "getComponent (removeEntity app e) e' t = (if e' = e then None else getComponent app e' t)"
  by (auto simp: getComponent_def jsmap_get_def map_of_removeEntity map_of_jsmap_delete
      split: option.splits)

lemma hasComponent_iff: "hasComponent app e t = (getComponent app e t \<noteq> None)"
  by (auto simp: hasComponent_def getComponent_def jsmap_has_def jsmap_get_def split: option.splits)


lemma distinct_keys_jsmap_set:
  "distinct (jsmap_keys m) \<Longrightarrow> distinct (jsmap_keys (jsmap_set k v m))"
  by (simp add: keys_jsmap_set)

lemma distinct_keys_jsmap_delete:
  "distinct (jsmap_keys m) \<Longrightarrow> distinct (jsmap_keys (jsmap_delete k m))"
  by (simp add: keys_jsmap_delete)

lemma list_all_jsmap_set:
  "list_all P m \<Longrightarrow> P (k, v) \<Longrightarrow> list_all P (jsmap_set k v m)"
  by (induction m) auto

lemma list_all_jsmap_delete: "list_all P m \<Longrightarrow> list_all P (jsmap_delete k m)"
  by (simp add: jsmap_delete_def list_all_iff)

lemma store_ok_lookup:
  "store_ok cs \<Longrightarrow> map_of cs ty = Some sub \<Longrightarrow> submap_ok (ty, sub)"
  by (auto simp: store_ok_def list_all_iff dest: map_of_SomeD)

lemma store_ok_on_submap:
  assumes "store_ok cs" and "\<And>sub. submap_ok (ty, sub) \<Longrightarrow> submap_ok (ty, f sub)"
  shows "store_ok (on_submap ty f cs)"
proof (cases "map_of cs ty")
  case None
  with assms(1) show ?thesis by (simp add: on_submap_def jsmap_get_def)
next
  case (Some sub)
  have "submap_ok (ty, f sub)"
    using assms Some by (blast intro: store_ok_lookup)
  with assms(1) Some show ?thesis
    by (simp add: on_submap_def jsmap_get_def store_ok_def distinct_keys_jsmap_set
        list_all_jsmap_set)
qed

lemma submap_ok_set:
  "submap_ok (ty, sub) \<Longrightarrow> ctype c = ty \<Longrightarrow> submap_ok (ty, jsmap_set e c sub)"
  by (simp add: submap_ok_def distinct_keys_jsmap_set list_all_jsmap_set)

lemma submap_ok_delete: "submap_ok (ty, sub) \<Longrightarrow> submap_ok (ty, jsmap_delete e sub)"
  by (simp add: submap_ok_def distinct_keys_jsmap_delete list_all_jsmap_delete)

lemma store_ok_empty: "store_ok []"
  by (simp add: store_ok_def jsmap_keys_def)

lemma submap_ok_empty: "submap_ok (ty, [])"
  by (simp add: submap_ok_def jsmap_keys_def)

lemma store_ok_addComponent:
  assumes "store_ok (components app)"
  shows "store_ok (components (addComponent app e c))"
proof -
  let ?cs = "if \<not> jsmap_has (ctype c) (components app)
             then jsmap_set (ctype c) [] (components app) else components app"
  have "store_ok ?cs"
    using assms
    by (simp add: store_ok_def distinct_keys_jsmap_set list_all_jsmap_set submap_ok_empty)
  then have "store_ok (on_submap (ctype c) (jsmap_set e c) ?cs)"
    by (rule store_ok_on_submap) (simp add: submap_ok_set)
  then show ?thesis
    by (simp add: addComponent_def Let_def)
qed

lemma store_ok_addComponents:
  "store_ok (components app) \<Longrightarrow> store_ok (components (addComponents app e cs))"
  by (induction cs arbitrary: app) (simp_all add: store_ok_addComponent)

lemma store_ok_removeEntity_loop:
  "store_ok cs \<Longrightarrow> store_ok (removeEntity_loop tys e cs)"
  by (induction tys arbitrary: cs) (simp_all add: store_ok_on_submap submap_ok_delete)

lemma store_ok_exec:
  "store_ok (components app) \<Longrightarrow> store_ok (components (snd (exec c app)))"
  by (cases c)
    (simp_all add: addEntity_def Let_def store_ok_addComponents store_ok_addComponent
      removeComponent_def store_ok_on_submap submap_ok_delete removeEntity_def
      store_ok_removeEntity_loop addSystem_def addStartupSystem_def removeSystem_def
      clearEntities_def clearSystems_def clear_def stop_def store_ok_empty)

lemma reachable_store_ok: "reachable app \<Longrightarrow> store_ok (components app)"
  by (induction rule: reachable.induct) (simp_all add: createApp_def store_ok_empty store_ok_exec)

lemma getComponent_ctype:
  assumes "store_ok (components app)" and "getComponent app e t = Some c"
  shows "ctype c = t"
proof -
  from assms(2) obtain sub where sub: "map_of (components app) t = Some sub" "map_of sub e = Some c"
    by (auto simp: getComponent_def jsmap_get_def split: option.splits)
  from assms(1) sub(1) have "submap_ok (t, sub)" by (rule store_ok_lookup)
  moreover from sub(2) have "(e, c) \<in> set sub" by (rule map_of_SomeD)
  ultimately show ?thesis by (auto simp: submap_ok_def list_all_iff)
qed


lemma checkRemainingComponents_loop_eq:
  "checkRemainingComponents_loop app e types i = list_all (hasComponent app e) (drop i types)"
proof (induction app e types i rule: checkRemainingComponents_loop.induct)
  case (1 app e types i)
  show ?case
  proof (cases "i < length types")
    case True
    then have d: "drop i types = types ! i # drop (Suc i) types"
      by (simp add: Cons_nth_drop_Suc)
    show ?thesis
      using True "1.IH" by (subst checkRemainingComponents_loop.simps) (auto simp: d)
  next
    case False
    then show ?thesis
      by (subst checkRemainingComponents_loop.simps) simp
  qed
qed

lemma checkRemainingComponents_eq:
  "checkRemainingComponents app e types = list_all (hasComponent app e) (tl types)"
  by (simp add: checkRemainingComponents_def checkRemainingComponents_loop_eq drop_Suc)

lemma storeQueryTuple_loop_eq:
  "i \<le> length types \<Longrightarrow> length types \<le> length tuple \<Longrightarrow>
   storeQueryTuple_loop app types e i tuple =
     take i tuple @ map (\<lambda>t. slot_of (getComponent app e t)) (drop i types) @ drop (length types) tuple"
proof (induction app types e i tuple rule: storeQueryTuple_loop.induct)
  case (1 app types e i tuple)
  show ?case
  proof (cases "i < length types")
    case True
    let ?v = "slot_of (getComponent app e (types ! i))"
    have d: "drop i types = types ! i # drop (Suc i) types"
      using True by (simp add: Cons_nth_drop_Suc)
    have a: "array_set tuple i ?v = tuple[i := ?v]"
      using True "1.prems" by (simp add: array_set_def)
    have "storeQueryTuple_loop app types e i tuple =
            storeQueryTuple_loop app types e (Suc i) (tuple[i := ?v])"
      using True by (subst storeQueryTuple_loop.simps) (simp add: a)
    also have "\<dots> = take (Suc i) (tuple[i := ?v]) @
        map (\<lambda>t. slot_of (getComponent app e t)) (drop (Suc i) types) @
        drop (length types) (tuple[i := ?v])"
      using True "1.prems" "1.IH"[OF True] by (simp add: a)
    also have "take (Suc i) (tuple[i := ?v]) = take i tuple @ [?v]"
      using True "1.prems" by (simp add: take_Suc_conv_app_nth)
    also have "drop (length types) (tuple[i := ?v]) = drop (length types) tuple"
      using True by simp
    finally show ?thesis by (simp add: d)
  next
    case False
    with "1.prems" have "i = length types" by simp
    then show ?thesis
      using "1.prems" by (subst storeQueryTuple_loop.simps) simp
  qed
qed

lemma storeQueryTuple_eq:
  assumes "length tuple = length types + 1"
  shows "storeQueryTuple app types e tuple = tuple_of app types e"
proof (cases types)
  case Nil
  with assms obtain x where "tuple = [x]"
    by (cases tuple) auto
  with Nil show ?thesis
    by (simp add: storeQueryTuple_def tuple_of_def array_set_def
        storeQueryTuple_loop.simps[of _ "[]"])
next
  case (Cons t0 ts)
  let ?s = "\<lambda>t. slot_of (getComponent app e t)"
  let ?t0 = "tuple[0 := ?s t0]"
  have l0: "length ?t0 = length types + 1" using assms by simp
  have loop: "storeQueryTuple_loop app types e 1 ?t0 =
      take 1 ?t0 @ map ?s (drop 1 types) @ drop (length types) ?t0"
    using l0 Cons by (intro storeQueryTuple_loop_eq) simp_all
  have tk: "take 1 ?t0 = [?s t0]"
    using assms by (cases tuple) simp_all
  have "\<exists>x. drop (length types) ?t0 = [x]"
  proof (cases "drop (length types) ?t0")
    case Nil
    then show ?thesis using l0 by simp
  next
    case (Cons y ys)
    have "length (drop (length types) ?t0) = Suc 0"
      using l0 by simp
    with Cons show ?thesis by simp
  qed
  then obtain x where dr: "drop (length types) ?t0 = [x]" ..
  have l1: "storeQueryTuple_loop app types e 1 ?t0 = map ?s types @ [x]"
    using loop tk dr Cons by simp
  have "storeQueryTuple app types e tuple =
          array_set (map ?s types @ [x]) (length types) (EntityId e)"
    using assms Cons l1 by (simp add: storeQueryTuple_def Let_def array_set_def)
  then show ?thesis
    by (simp add: array_set_def tuple_of_def list_update_append)
qed

lemma length_tuple_of: "length (tuple_of app types e) = length types + 1"
  by (simp add: tuple_of_def)

lemma query_loop_eq:
  "query_loop app types es acc =
     acc @ map (tuple_of app types) (filter (\<lambda>e. checkRemainingComponents app e types) es)"
  by (induction es arbitrary: acc) (simp_all add: storeQueryTuple_eq new_Array_def)


lemma mem_anchor_keys:
  "e \<in> set (anchor_keys app (t0 # ts)) \<longleftrightarrow> hasComponent app e t0"
proof (cases "map_of (components app) t0")
  case None
  then show ?thesis
    by (simp add: anchor_keys_def hasComponent_def jsmap_get_def)
next
  case (Some sub)
  have "e \<in> fst ` set sub \<longleftrightarrow> map_of sub e \<noteq> None"
    by (simp add: map_of_eq_None_iff)
  with Some show ?thesis
    by (simp add: anchor_keys_def hasComponent_def jsmap_get_def jsmap_has_def jsmap_keys_def)
qed

lemma distinct_anchor_keys:
  "store_ok (components app) \<Longrightarrow> distinct (anchor_keys app types)"
  by (auto simp: anchor_keys_def jsmap_get_def submap_ok_def split: list.splits option.splits
      dest: store_ok_lookup)

lemma query_eq_map_matches:
  "query app types = map (tuple_of app types) (query_matches app types)"
proof (cases types)
  case Nil
  then show ?thesis
    by (simp add: query_def query_matches_def anchor_keys_def)
next
  case (Cons t0 ts)
  have "filter (\<lambda>e. checkRemainingComponents app e types) (anchor_keys app types) =
        filter (\<lambda>e. list_all (hasComponent app e) types) (anchor_keys app types)"
    unfolding Cons
    by (rule filter_cong) (simp_all add: checkRemainingComponents_eq mem_anchor_keys)
  then show ?thesis
    by (simp add: query_def query_loop_eq query_matches_def)
qed

lemma set_query_matches:
  "set (query_matches app (t0 # ts)) = {e. \<forall>t \<in> set (t0 # ts). hasComponent app e t}"
  by (auto simp: query_matches_def mem_anchor_keys list_all_iff)

subsection \<open>Unfolding the operations on a given state\<close>

lemma addEntity_unfold:
  "addEntity app comps =
     (nextId app,
      addComponents
        (app\<lparr>nextId := js_increment (nextId app),
             entities := jsset_add (nextId app) (entities app)\<rparr>)
        (nextId app) comps)"
  by (simp add: addEntity_def Let_def)

lemma addComponent_unfold:
  "addComponent app e c =
     app\<lparr>components := on_submap (ctype c) (jsmap_set e c)
       (if jsmap_has (ctype c) (components app) then components app
        else jsmap_set (ctype c) [] (components app))\<rparr>"
  by (simp add: addComponent_def Let_def)

lemma example_store_eq:
  "example_store =
     \<lparr>entities = [0, 1, 2],
      components =
        [(''body'', [(0, Component ''body'' 10), (1, Component ''body'' 20)]),
         (''shape'',
          [(0, Component ''shape'' 11), (1, Component ''shape'' 22), (2, Component ''shape'' 31)]),
         (''movement'', [(1, Component ''movement'' 21)])],
      startupSystems = [], systems = [], nextId = 3, resources = (), running = False\<rparr>"
  by (simp add: example_store_def createApp_def addEntity_unfold addComponent_unfold jsset_add_def
      jsmap_has_def jsmap_get_def on_submap_def js_increment_def float_exact_limit_def)

lemma reachable_addEntity: "reachable app \<Longrightarrow> reachable (snd (addEntity app comps))"
  using reachable_exec[of app "AddEntity comps"] by simp

lemma reachable_addComponent: "reachable app \<Longrightarrow> reachable (addComponent app e c)"
  using reachable_exec[of app "AddComponent e c"] by simp

lemma reachable_example_store: "reachable example_store"
  unfolding example_store_def by (intro reachable_addEntity reachable_init)

subsection \<open>Adding and removing\<close>


lemma getComponent_addComponent:
  "getComponent (addComponent app entity c) e t =
     (if e = entity \<and> t = ctype c then Some c else getComponent app e t)"
proof -
  let ?ty = "ctype c"
  let ?cs = "if jsmap_has ?ty (components app) then components app
             else jsmap_set ?ty [] (components app)"
  have other: "map_of ?cs t' = map_of (components app) t'" if "t' \<noteq> ?ty" for t'
    using that by (simp add: map_of_jsmap_set)
  have own: "map_of ?cs ?ty = Some (case map_of (components app) ?ty of None \<Rightarrow> [] | Some sub \<Rightarrow> sub)"
    by (auto simp: jsmap_has_def map_of_jsmap_set)
  show ?thesis
    by (auto simp: getComponent_def addComponent_unfold jsmap_get_def map_of_on_submap own other
        map_of_jsmap_set split: option.splits)
qed

lemma getComponent_removeComponent:
  "getComponent (removeComponent app entity t) e t' =
     (if e = entity \<and> t' = t then None else getComponent app e t')"
  by (auto simp: getComponent_def removeComponent_def jsmap_get_def map_of_on_submap
      map_of_jsmap_delete split: option.splits)

lemma on_submap_delete_absent:
  assumes "\<And>sub. map_of cs ty = Some sub \<Longrightarrow> map_of sub e = None"
  shows "on_submap ty (jsmap_delete e) cs = cs"
proof (cases "map_of cs ty")
  case None
  then show ?thesis by (simp add: on_submap_def jsmap_get_def)
next
  case (Some sub)
  with assms have "jsmap_delete e sub = sub"
    by (simp add: jsmap_delete_absent)
  with Some show ?thesis
    by (simp add: on_submap_def jsmap_get_def jsmap_set_same)
qed

lemma removeEntity_loop_absent:
  assumes "\<And>ty sub. map_of cs ty = Some sub \<Longrightarrow> map_of sub e = None"
  shows "removeEntity_loop tys e cs = cs"
  using assms by (induction tys) (simp_all add: on_submap_delete_absent)

lemma removeComponent_absent:
  assumes "\<not> hasComponent app entity t"
  shows "removeComponent app entity t = app"
proof -
  have "on_submap t (jsmap_delete entity) (components app) = components app"
    using assms
    by (intro on_submap_delete_absent) (simp add: hasComponent_def jsmap_get_def jsmap_has_def)
  then show ?thesis
    by (simp add: removeComponent_def)
qed

lemma removeEntity_absent:
  assumes "entity \<notin> set (getEntities app)" and "\<And>t. \<not> hasComponent app entity t"
  shows "removeEntity app entity = app"
proof -
  have "map_of sub entity = None" if "map_of (components app) ty = Some sub" for ty sub
    using assms(2)[of ty] that by (simp add: hasComponent_def jsmap_get_def jsmap_has_def)
  then have "removeEntity_loop (jsmap_keys (components app)) entity (components app) = components app"
    by (intro removeEntity_loop_absent)
  moreover have "jsset_delete entity (entities app) = entities app"
    using assms(1) by (auto simp: jsset_delete_def getEntities_def filter_id_conv)
  ultimately show ?thesis
    by (simp add: removeEntity_def Let_def)
qed

lemma getEntities_removeEntity:
  "getEntities (removeEntity app entity) = filter (\<lambda>x. x \<noteq> entity) (getEntities app)"
  by (simp add: getEntities_def removeEntity_def Let_def jsset_delete_def)

lemma getEntities_addComponent: "getEntities (addComponent app entity c) = getEntities app"
  by (simp add: getEntities_def addComponent_unfold)

lemma getEntities_removeComponent: "getEntities (removeComponent app entity t) = getEntities app"
  by (simp add: getEntities_def removeComponent_def)

lemma tuple_in_query:
  assumes "list_all (hasComponent app e) (t0 # ts)"
  shows "tuple_of app (t0 # ts) e \<in> set (query app (t0 # ts))"
proof -
  have "e \<in> set (query_matches app (t0 # ts))"
    using assms by (simp only: set_query_matches) (simp add: list_all_iff)
  then show ?thesis
    by (simp add: query_eq_map_matches)
qed

lemma getEntities_example_store: "getEntities example_store = [0, 1, 2]"
  by (simp add: getEntities_def example_store_eq)

subsection \<open>The lazy query\<close>


lemma filter_check_anchor_keys:
  "filter (\<lambda>e. checkRemainingComponents app e types) (anchor_keys app types) =
     query_matches app types"
proof (cases types)
  case Nil
  then show ?thesis
    by (simp add: query_matches_def anchor_keys_def)
next
  case (Cons t0 ts)
  show ?thesis
    unfolding Cons query_matches_def
    by (rule filter_cong) (simp_all add: checkRemainingComponents_eq mem_anchor_keys)
qed

lemma queryIter_loop_eq:
  assumes "a < length h" and "length (h ! a) = length types + 1"
  shows "queryIter_loop app types a on_yield es (h, acc) =
     (let ms = filter (\<lambda>e. checkRemainingComponents app e types) es
      in (if ms = [] then h else h[a := tuple_of app types (last ms)],
          fold (\<lambda>e. on_yield a (h[a := tuple_of app types e])) ms acc))"
  using assms
proof (induction es arbitrary: h acc)
  case Nil
  then show ?case by simp
next
  case (Cons e es)
  show ?case
  proof (cases "checkRemainingComponents app e types")
    case False
    then show ?thesis
      using Cons by simp
  next
    case True
    let ?h = "h[a := tuple_of app types e]"
    have st: "storeQueryTuple app types e (h ! a) = tuple_of app types e"
      using Cons.prems by (simp add: storeQueryTuple_eq)
    have pre: "a < length ?h" "length (?h ! a) = length types + 1"
      using Cons.prems by (simp_all add: length_tuple_of)
    show ?thesis
      using True Cons.IH[OF pre] by (simp add: st Let_def)
  qed
qed

lemma queryIter_eq:
  "queryIter app types on_yield (h0, acc) =
     (let h = h0 @ [new_Array (length types + 1)]; a = length h0; ms = query_matches app types
      in (if ms = [] then h else h[a := tuple_of app types (last ms)],
          fold (\<lambda>e. on_yield a (h[a := tuple_of app types e])) ms acc))"
proof -
  let ?h = "h0 @ [new_Array (length types + 1)]"
  have "length h0 < length ?h" and "length (?h ! length h0) = length types + 1"
    by (simp_all add: new_Array_def)
  then show ?thesis
    by (simp add: queryIter_def Let_def queryIter_loop_eq filter_check_anchor_keys
        del: list_update_append1)
qed

lemma fold_snoc_map: "fold (\<lambda>e acc. acc @ [f e]) ms acc = acc @ map f ms"
  by (induction ms arbitrary: acc) simp_all

lemma copy_each_queryIter_eq: "copy_each_queryIter app types h0 = query app types"
  by (simp add: copy_each_queryIter_def queryIter_eq Let_def fold_snoc_map query_eq_map_matches)

lemma Array_from_queryIter_eq:
  "Array_from_queryIter app types h0 =
     replicate (length (query app types)) (last (query app types))"
proof (cases "query_matches app types = []")
  case True
  then show ?thesis
    by (simp add: Array_from_queryIter_def queryIter_eq Let_def query_eq_map_matches)
next
  case False
  have refs: "fold (\<lambda>e acc. acc @ [length h0]) (query_matches app types) [] =
      replicate (length (query_matches app types)) (length h0)"
    by (simp add: fold_snoc_map map_replicate_const)
  show ?thesis
    using False
    by (simp add: Array_from_queryIter_def queryIter_eq Let_def refs query_eq_map_matches
        last_map map_replicate_const)
qed

lemma query_example_store_shape:
  "query example_store [''shape''] =
     [[CompRef (Component ''shape'' 11), EntityId 0],
      [CompRef (Component ''shape'' 22), EntityId 1],
      [CompRef (Component ''shape'' 31), EntityId 2]]"
proof -
  have "query_matches example_store [''shape''] = [0, 1, 2]"
    by (simp add: example_store_eq query_matches_def anchor_keys_def hasComponent_def
        jsmap_get_def jsmap_has_def jsmap_keys_def)
  then show ?thesis
    by (simp add: query_eq_map_matches tuple_of_def slot_of_def getComponent_def jsmap_get_def
        example_store_eq)
qed

subsection \<open>The id counter and combined systems\<close>

lemma nextId_addComponent: "nextId (addComponent app e c) = nextId app"
  by (simp add: addComponent_unfold)

lemma nextId_addComponents: "nextId (addComponents app e cs) = nextId app"
  by (induction cs arbitrary: app) (simp_all add: nextId_addComponent)

lemma addEntity_id: "fst (addEntity app comps) = nextId app"
  by (simp add: addEntity_unfold)

lemma nextId_addEntity: "nextId (snd (addEntity app comps)) = js_increment (nextId app)"
  by (simp add: addEntity_unfold nextId_addComponents)

lemma nextId_removeEntity: "nextId (removeEntity app e) = nextId app"
  by (simp add: removeEntity_def Let_def)

lemma nextId_clearEntities: "nextId (clearEntities app) = nextId app"
  by (simp add: clearEntities_def)

lemma nextId_clear: "nextId (clear app) = nextId app"
  by (simp add: clear_def clearSystems_def clearEntities_def)

lemma nextId_exec:
  "nextId (snd (exec c app)) =
     (case fst (exec c app) of None \<Rightarrow> nextId app | Some i \<Rightarrow> js_increment (nextId app))"
  by (cases c)
    (simp_all add: nextId_addEntity nextId_addComponent nextId_removeEntity removeComponent_def
      addSystem_def addStartupSystem_def removeSystem_def nextId_clearEntities clearSystems_def
      nextId_clear stop_def)

lemma exec_id: "fst (exec c app) = Some i \<Longrightarrow> i = nextId app"
  by (cases c) (auto simp: addEntity_id)

lemma run_ops_unfold:
  "run_ops (c # cs) app =
     ((case fst (exec c app) of None \<Rightarrow> [] | Some i \<Rightarrow> [i]) @ fst (run_ops cs (snd (exec c app))),
      snd (run_ops cs (snd (exec c app))))"
  by (simp add: case_prod_unfold Let_def)

declare run_ops.simps(2) [simp del]

lemma js_increment_below: "n < float_exact_limit \<Longrightarrow> js_increment n = n + 1"
  by (simp add: js_increment_def)

lemma js_increment_min:
  "n \<le> float_exact_limit \<Longrightarrow> js_increment n = min float_exact_limit (n + 1)"
  by (simp add: js_increment_def)

lemma run_ops_ids_below_limit:
  "nextId app + length (fst (run_ops ops app)) \<le> float_exact_limit \<Longrightarrow>
   fst (run_ops ops app) = [nextId app ..< nextId app + length (fst (run_ops ops app))]
   \<and> nextId (snd (run_ops ops app)) = nextId app + length (fst (run_ops ops app))"
proof (induction ops arbitrary: app)
  case Nil
  show ?case by simp
next
  case (Cons c ops)
  let ?app' = "snd (exec c app)"
  let ?ids = "fst (run_ops ops ?app')"
  show ?case
  proof (cases "fst (exec c app)")
    case None
    then have n: "nextId ?app' = nextId app"
      by (simp add: nextId_exec)
    have "nextId ?app' + length ?ids \<le> float_exact_limit"
      using Cons.prems None n by (simp add: run_ops_unfold)
    from Cons.IH[OF this] show ?thesis
      using None n by (simp add: run_ops_unfold)
  next
    case (Some i)
    then have i: "i = nextId app"
      by (rule exec_id)
    have len: "nextId app + Suc (length ?ids) \<le> float_exact_limit"
      using Cons.prems Some by (simp add: run_ops_unfold)
    then have n: "nextId ?app' = nextId app + 1"
      using Some by (simp add: nextId_exec js_increment_below)
    have "nextId ?app' + length ?ids \<le> float_exact_limit"
      using len n by simp
    from Cons.IH[OF this] show ?thesis
      using Some i n by (simp add: run_ops_unfold upt_conv_Cons del: upt_Suc)
  qed
qed

lemma nextId_run_ops_replicate_AddEntity:
  "nextId app \<le> float_exact_limit \<Longrightarrow>
   nextId (snd (run_ops (replicate n (AddEntity comps)) app)) =
     min float_exact_limit (nextId app + n)"
proof (induction n arbitrary: app)
  case 0
  then show ?case by simp
next
  case (Suc n)
  let ?app' = "snd (addEntity app comps)"
  have n': "nextId ?app' = min float_exact_limit (nextId app + 1)"
    using Suc.prems by (simp add: nextId_addEntity js_increment_min)
  then have "nextId ?app' \<le> float_exact_limit"
    by simp
  from Suc.IH[OF this] show ?case
    using n' by (simp add: run_ops_unfold)
qed

lemma reachable_nextId: "reachable app \<Longrightarrow> nextId app \<le> float_exact_limit"
proof (induction rule: reachable.induct)
  case (reachable_init res)
  show ?case by (simp add: createApp_def)
next
  case (reachable_exec app c)
  then show ?case
    by (cases "fst (exec c app)") (simp_all add: nextId_exec js_increment_def)
qed

lemma combineSystems_loop_eq:
  "combineSystems_loop syss i app = fold (\<lambda>s. s) (drop i syss) app"
proof (induction syss i app rule: combineSystems_loop.induct)
  case (1 syss i app)
  show ?case
  proof (cases "i < length syss")
    case True
    then have d: "drop i syss = syss ! i # drop (Suc i) syss"
      by (simp add: Cons_nth_drop_Suc)
    show ?thesis
      using True "1.IH" by (subst combineSystems_loop.simps) (simp add: d)
  next
    case False
    then show ?thesis
      by (subst combineSystems_loop.simps) simp
  qed
qed

subsection \<open>The scheduler\<close>

lemma fold_stable:
  assumes "registry_stable sem"
  shows "systems (fold sem ss app) = systems app \<and>
         startupSystems (fold sem ss app) = startupSystems app"
  using assms by (induction ss arbitrary: app) (simp_all add: registry_stable_def)

lemma step_loop_stable:
  assumes "registry_stable sem"
  shows "i \<le> length (systems app) \<Longrightarrow>
     step_loop sem i calls app =
       Some (calls @ drop i (systems app), fold sem (drop i (systems app)) app)"
proof (induction "length (systems app) - i" arbitrary: i calls app)
  case 0
  then have "i = length (systems app)" by simp
  then show ?case
    by (subst step_loop.simps) simp
next
  case (Suc n)
  then have lt: "i < length (systems app)" by simp
  let ?s = "systems app ! i"
  have same: "systems (sem ?s app) = systems app"
    using assms by (simp add: registry_stable_def)
  have d: "drop i (systems app) = ?s # drop (Suc i) (systems app)"
    using lt by (simp add: Cons_nth_drop_Suc)
  have "step_loop sem (Suc i) (calls @ [?s]) (sem ?s app) =
      Some ((calls @ [?s]) @ drop (Suc i) (systems (sem ?s app)),
            fold sem (drop (Suc i) (systems (sem ?s app))) (sem ?s app))"
    using Suc.hyps(2) lt by (intro Suc.hyps(1)) (simp_all add: same)
  then show ?case
    using lt by (subst step_loop.simps) (simp add: same d)
qed

lemma step_stable:
  "registry_stable sem \<Longrightarrow> step sem app = Some (systems app, fold sem (systems app) app)"
  by (simp add: step_def step_loop_stable)

lemma forEach_startup_stable:
  assumes "registry_stable sem"
  shows "len = length (startupSystems app) \<Longrightarrow> k \<le> len \<Longrightarrow>
     forEach_startup sem len k calls app =
       (calls @ drop k (startupSystems app), fold sem (drop k (startupSystems app)) app)"
proof (induction "len - k" arbitrary: k calls app)
  case 0
  then have "k = length (startupSystems app)" by simp
  with 0 show ?case
    by (subst forEach_startup.simps) simp
next
  case (Suc n)
  then have lt: "k < length (startupSystems app)" by simp
  let ?s = "startupSystems app ! k"
  have same: "startupSystems (sem ?s app) = startupSystems app"
    using assms by (simp add: registry_stable_def)
  have d: "drop k (startupSystems app) = ?s # drop (Suc k) (startupSystems app)"
    using lt by (simp add: Cons_nth_drop_Suc)
  have "forEach_startup sem len (Suc k) (calls @ [?s]) (sem ?s app) =
      ((calls @ [?s]) @ drop (Suc k) (startupSystems (sem ?s app)),
       fold sem (drop (Suc k) (startupSystems (sem ?s app))) (sem ?s app))"
    using Suc.hyps(2) Suc.prems lt by (intro Suc.hyps(1)) (simp_all add: same)
  then show ?case
    using lt Suc.prems by (subst forEach_startup.simps) (simp add: same d)
qed

lemma steps_stable:
  assumes "registry_stable sem"
  shows "steps sem n app =
     Some (concat (replicate n (systems app)), (fold sem (systems app) ^^ n) app)"
proof (induction n arbitrary: app)
  case 0
  show ?case by simp
next
  case (Suc n)
  have same: "systems (fold sem (systems app) app) = systems app"
    using assms by (simp add: fold_stable)
  show ?case
    by (simp add: step_stable[OF assms] Suc same funpow_swap1)
qed

lemma run_stable:
  assumes "registry_stable sem"
  shows "run sem app =
     (let a0 = fold sem (startupSystems app) (app\<lparr>running := True\<rparr>)
      in Some (startupSystems app @ (if running a0 then systems app else []),
               if running a0 then fold sem (systems app) a0 else a0,
               running a0))"
proof -
  let ?a0 = "fold sem (startupSystems app) (app\<lparr>running := True\<rparr>)"
  have same: "systems ?a0 = systems app"
    using fold_stable[OF assms, of "startupSystems app" "app\<lparr>running := True\<rparr>"] by simp
  have fe: "forEach_startup sem (length (startupSystems app)) 0 [] (app\<lparr>running := True\<rparr>) =
      (startupSystems app, ?a0)"
    using forEach_startup_stable[OF assms, of "length (startupSystems app)"
        "app\<lparr>running := True\<rparr>" 0 "[]"] by simp
  show ?thesis
    by (simp add: run_def Let_def fe loop_def step_stable[OF assms] same)
qed

lemma registry_stable_spawner_sem: "registry_stable spawner_sem"
proof -
  have "systems (addComponents a e cs) = systems a \<and>
        startupSystems (addComponents a e cs) = startupSystems a"
    for a :: "(nat, unit, unit) app" and e cs
    by (induction cs arbitrary: a) (simp_all add: addComponent_unfold)
  then show ?thesis
    by (simp add: registry_stable_def spawner_sem_def addEntity_unfold)
qed

section \<open>The claims\<close>

text \<open>
  C1. In every state the public operations can produce, and for every non-empty list of
  type tags \<open>t0 # ts\<close>, the eager query returns one tuple for each entity of
  \<open>query_matches\<close>, in that order: these are the keys of the anchor's sub-map, in its
  iteration order, that hold a component of every listed type. No entity occurs twice
  among them, and they are exactly the entities that hold every listed type. The tuple
  of an entity has, at the position of each tag, that entity's component of that tag,
  and the entity id last.
\<close>

theorem query_returns_matching_tuples:
  assumes "reachable app"
  shows "query app (t0 # ts) = map (tuple_of app (t0 # ts)) (query_matches app (t0 # ts))
    \<and> distinct (query_matches app (t0 # ts))
    \<and> set (query_matches app (t0 # ts)) = {e. \<forall>t \<in> set (t0 # ts). hasComponent app e t}
    \<and> (\<forall>e \<in> set (query_matches app (t0 # ts)). \<forall>t \<in> set (t0 # ts).
          \<exists>c. getComponent app e t = Some c \<and> ctype c = t)"
proof -
  have ok: "store_ok (components app)"
    using assms by (rule reachable_store_ok)
  have "distinct (query_matches app (t0 # ts))"
    using ok by (simp add: query_matches_def distinct_anchor_keys)
  moreover have "\<exists>c. getComponent app e t = Some c \<and> ctype c = t"
    if "e \<in> set (query_matches app (t0 # ts))" and "t \<in> set (t0 # ts)" for e t
  proof -
    from that have "hasComponent app e t"
      by (simp only: set_query_matches) blast
    then obtain c where "getComponent app e t = Some c"
      by (auto simp: hasComponent_iff)
    with ok show ?thesis
      by (auto dest: getComponent_ctype)
  qed
  ultimately show ?thesis
    by (simp only: query_eq_map_matches[symmetric] set_query_matches) blast
qed

theorem query_returns_matching_tuples_witness:
  "reachable example_store
   \<and> query example_store [''body'', ''movement''] =
       [[CompRef (Component ''body'' 20), CompRef (Component ''movement'' 21), EntityId 1]]
   \<and> query example_store [''shape''] =
       [[CompRef (Component ''shape'' 11), EntityId 0],
        [CompRef (Component ''shape'' 22), EntityId 1],
        [CompRef (Component ''shape'' 31), EntityId 2]]"
proof -
  have r: "reachable example_store"
    by (rule reachable_example_store)
  have q1: "query example_store [''body'', ''movement''] =
      map (tuple_of example_store [''body'', ''movement''])
        (query_matches example_store [''body'', ''movement''])"
    using query_returns_matching_tuples[OF r, of "''body''" "[''movement'']"] by (rule conjunct1)
  have q2: "query example_store [''shape''] =
      map (tuple_of example_store [''shape'']) (query_matches example_store [''shape''])"
    using query_returns_matching_tuples[OF r, of "''shape''" "[]"] by (rule conjunct1)
  have m1: "query_matches example_store [''body'', ''movement''] = [1]"
    by (simp add: example_store_eq query_matches_def anchor_keys_def hasComponent_def
        jsmap_get_def jsmap_has_def jsmap_keys_def)
  have m2: "query_matches example_store [''shape''] = [0, 1, 2]"
    by (simp add: example_store_eq query_matches_def anchor_keys_def hasComponent_def
        jsmap_get_def jsmap_has_def jsmap_keys_def)
  have t1: "map (tuple_of example_store [''body'', ''movement'']) [1] =
      [[CompRef (Component ''body'' 20), CompRef (Component ''movement'' 21), EntityId 1]]"
    by (simp add: tuple_of_def slot_of_def getComponent_def jsmap_get_def example_store_eq)
  have t2: "map (tuple_of example_store [''shape'']) [0, 1, 2] =
      [[CompRef (Component ''shape'' 11), EntityId 0],
       [CompRef (Component ''shape'' 22), EntityId 1],
       [CompRef (Component ''shape'' 31), EntityId 2]]"
    by (simp add: tuple_of_def slot_of_def getComponent_def jsmap_get_def example_store_eq)
  show ?thesis
    using r by (simp only: q1 q2 m1 m2 t1 t2)
qed

text \<open>
  C3. In every state the public operations can produce, for every entity \<open>e\<close> and
  type tag \<open>t\<close>: \<open>hasComponent\<close> is true exactly when \<open>getComponent\<close> returns a
  component, and a component it returns has \<open>t\<close> in its field \<open>type\<close>. Both are
  total functions with no error result: a missing sub-map or entry gives \<open>False\<close> and
  \<open>None\<close>.
\<close>

theorem hasComponent_iff_getComponent_present:
  assumes "reachable app"
  shows "(hasComponent app e t \<longleftrightarrow> getComponent app e t \<noteq> None)
    \<and> (\<forall>c. getComponent app e t = Some c \<longrightarrow> ctype c = t)"
  using reachable_store_ok[OF assms] by (auto simp: hasComponent_iff dest: getComponent_ctype)

theorem hasComponent_iff_getComponent_present_witness:
  "reachable example_store
   \<and> getComponent example_store 1 ''movement'' = Some (Component ''movement'' 21)
   \<and> hasComponent example_store 1 ''movement''
   \<and> ctype (Component ''movement'' (21::nat)) = ''movement''
   \<and> getComponent example_store 0 ''movement'' = None
   \<and> \<not> hasComponent example_store 0 ''movement''"
proof -
  have r: "reachable example_store"
    by (rule reachable_example_store)
  have g1: "getComponent example_store 1 ''movement'' = Some (Component ''movement'' 21)"
    by (simp add: getComponent_def jsmap_get_def example_store_eq)
  have g0: "getComponent example_store 0 ''movement'' = None"
    by (simp add: getComponent_def jsmap_get_def example_store_eq)
  have h1: "hasComponent example_store 1 ''movement''"
    using hasComponent_iff_getComponent_present[OF r, of 1 "''movement''"] g1 by simp
  have c1: "ctype (Component ''movement'' (21::nat)) = ''movement''"
    using hasComponent_iff_getComponent_present[OF r, of 1 "''movement''"] g1 by blast
  have h0: "\<not> hasComponent example_store 0 ''movement''"
    using hasComponent_iff_getComponent_present[OF r, of 0 "''movement''"] g0 by simp
  show ?thesis
    using r g1 h1 c1 g0 h0 by (intro conjI)
qed

text \<open>
  C4. After \<open>removeEntity app entity\<close> the entity is not in the registry and holds no
  component of any type; every other entity has the components it had, and the registry
  is the old one without the entity, in the same order.
\<close>

theorem removeEntity_removes_entity_only:
  "entity \<notin> set (getEntities (removeEntity app entity))
   \<and> \<not> hasComponent (removeEntity app entity) entity t
   \<and> getComponent (removeEntity app entity) e t =
       (if e = entity then None else getComponent app e t)
   \<and> hasComponent (removeEntity app entity) e t = (e \<noteq> entity \<and> hasComponent app e t)
   \<and> getEntities (removeEntity app entity) = filter (\<lambda>x. x \<noteq> entity) (getEntities app)"
  by (simp add: getEntities_removeEntity hasComponent_iff getComponent_removeEntity)

text \<open>
  C8 (as amended). \<open>removeComponent\<close> on an entity that has no component of the tag,
  which includes a tag that was never used, leaves the state as it is. \<open>removeEntity\<close>
  on an entity that is not in the registry and holds no component leaves the state as it
  is; on an entity that is not in the registry it leaves the registry as it is. Both are
  total. \<open>removeComponent\<close> changes no lookup but the one of its entity and tag, and
  \<open>removeEntity\<close> changes no lookup and no registry membership of another entity.
\<close>

theorem remove_absent_is_noop:
  "(\<not> hasComponent app entity t \<longrightarrow> removeComponent app entity t = app)
   \<and> (entity \<notin> set (getEntities app) \<and> (\<forall>t. \<not> hasComponent app entity t) \<longrightarrow>
        removeEntity app entity = app)
   \<and> (entity \<notin> set (getEntities app) \<longrightarrow>
        getEntities (removeEntity app entity) = getEntities app)
   \<and> getEntities (removeComponent app entity t) = getEntities app
   \<and> getComponent (removeComponent app entity t) e t' =
        (if e = entity \<and> t' = t then None else getComponent app e t')
   \<and> getComponent (removeEntity app entity) e t' =
        (if e = entity then None else getComponent app e t')
   \<and> (e \<noteq> entity \<longrightarrow>
        (e \<in> set (getEntities (removeEntity app entity)) \<longleftrightarrow> e \<in> set (getEntities app)))"
proof -
  have "getEntities (removeEntity app entity) = getEntities app"
    if "entity \<notin> set (getEntities app)"
    using that by (auto simp: getEntities_removeEntity filter_id_conv)
  then show ?thesis
    by (auto simp: removeComponent_absent removeEntity_absent getEntities_removeComponent
        getComponent_removeComponent getComponent_removeEntity getEntities_removeEntity)
qed

theorem remove_absent_is_noop_witness:
  "\<not> hasComponent example_store 0 ''movement''
   \<and> removeComponent example_store 0 ''movement'' = example_store
   \<and> removeComponent example_store 0 ''never used'' = example_store
   \<and> 5 \<notin> set (getEntities example_store)
   \<and> (\<forall>t. \<not> hasComponent example_store 5 t)
   \<and> removeEntity example_store 5 = example_store
   \<and> getEntities (removeEntity example_store 5) = getEntities example_store
   \<and> (0 \<in> set (getEntities (removeEntity example_store 5)) \<longleftrightarrow> 0 \<in> set (getEntities example_store))"
proof -
  have h0: "\<not> hasComponent example_store 0 ''movement''"
    by (simp add: hasComponent_def jsmap_get_def jsmap_has_def example_store_eq)
  have h1: "\<not> hasComponent example_store 0 ''never used''"
    by (simp add: hasComponent_def jsmap_get_def jsmap_has_def example_store_eq)
  have l5: "5 \<notin> set (getEntities example_store)"
    by (simp add: getEntities_example_store)
  have h5: "\<forall>t. \<not> hasComponent example_store 5 t"
    by (simp add: hasComponent_def jsmap_get_def jsmap_has_def example_store_eq)
  have d: "(0::nat) \<noteq> 5" by simp
  note t0 = remove_absent_is_noop[of example_store 0 "''movement''" 0 "''movement''"]
  note t1 = remove_absent_is_noop[of example_store 0 "''never used''" 0 "''movement''"]
  note t5 = remove_absent_is_noop[of example_store 5 "''movement''" 0 "''movement''"]
  show ?thesis
    using h0 h1 l5 h5 d t0 t1 t5 by blast
qed

text \<open>
  C8 as stated fails for an entity that is not in the registry but holds a component,
  which \<open>addComponent\<close> allows: \<open>removeEntity\<close> deletes the component, so it is not
  a no-op there.
\<close>

theorem removeEntity_not_live_counterexample:
  "7 \<notin> set (getEntities (addComponent (createApp ()) 7 (Component ''body'' ()) :: (nat, unit, unit) app))
   \<and> hasComponent (addComponent (createApp ()) 7 (Component ''body'' ()) :: (nat, unit, unit) app) 7 ''body''
   \<and> \<not> hasComponent
         (removeEntity (addComponent (createApp ()) 7 (Component ''body'' ()) :: (nat, unit, unit) app) 7)
         7 ''body''
   \<and> removeEntity (addComponent (createApp ()) 7 (Component ''body'' ()) :: (nat, unit, unit) app) 7
       \<noteq> addComponent (createApp ()) 7 (Component ''body'' ())"
proof -
  let ?app = "addComponent (createApp ()) 7 (Component ''body'' ()) :: (nat, unit, unit) app"
  have a: "7 \<notin> set (getEntities ?app)"
    by (simp add: getEntities_addComponent) (simp add: getEntities_def createApp_def)
  have b: "hasComponent ?app 7 ''body''"
    by (simp add: hasComponent_iff getComponent_addComponent)
  have c: "\<not> hasComponent (removeEntity ?app 7) 7 ''body''"
    by (simp add: hasComponent_iff getComponent_removeEntity)
  from b c have "removeEntity ?app 7 \<noteq> ?app"
    by auto
  with a b c show ?thesis
    by (intro conjI)
qed

text \<open>
  C9. \<open>addComponent\<close> stores the component under its own tag for the given id, whether
  or not the id is in the registry: afterwards \<open>hasComponent\<close> is true for the id and
  the tag, the lookup of the id and tag gives the component and every other lookup is
  unchanged, the registry listed by \<open>getEntities\<close> is unchanged (an id that was not in
  it is still not in it), and the id's tuple is in the result of the query on the tag
  alone and of every query anchored on the tag whose other types the id holds.
\<close>

theorem addComponent_ignores_liveness:
  "hasComponent (addComponent app entity c) entity (ctype c)
   \<and> getComponent (addComponent app entity c) e t =
        (if e = entity \<and> t = ctype c then Some c else getComponent app e t)
   \<and> getEntities (addComponent app entity c) = getEntities app
   \<and> [CompRef c, EntityId entity] \<in> set (query (addComponent app entity c) [ctype c])
   \<and> (list_all (hasComponent (addComponent app entity c) entity) ts \<longrightarrow>
        tuple_of (addComponent app entity c) (ctype c # ts) entity
          \<in> set (query (addComponent app entity c) (ctype c # ts)))"
proof -
  let ?app = "addComponent app entity c"
  have h: "hasComponent ?app entity (ctype c)"
    by (simp add: hasComponent_iff getComponent_addComponent)
  have "tuple_of ?app [ctype c] entity \<in> set (query ?app [ctype c])"
    using h by (intro tuple_in_query) simp
  then have one: "[CompRef c, EntityId entity] \<in> set (query ?app [ctype c])"
    by (simp add: tuple_of_def getComponent_addComponent slot_of_def)
  have "tuple_of ?app (ctype c # ts) entity \<in> set (query ?app (ctype c # ts))"
    if "list_all (hasComponent ?app entity) ts"
    using h that by (intro tuple_in_query) simp
  with h one show ?thesis
    by (simp add: getComponent_addComponent getEntities_addComponent)
qed

theorem addComponent_ignores_liveness_witness:
  "7 \<notin> set (getEntities example_store)
   \<and> 7 \<notin> set (getEntities (addComponent (addComponent example_store 7 (Component ''body'' 70)) 7 (Component ''shape'' 71)))
   \<and> hasComponent (addComponent (addComponent example_store 7 (Component ''body'' 70)) 7 (Component ''shape'' 71)) 7 ''shape''
   \<and> list_all (hasComponent (addComponent (addComponent example_store 7 (Component ''body'' 70)) 7 (Component ''shape'' 71)) 7) [''body'']
   \<and> [CompRef (Component ''shape'' 71), CompRef (Component ''body'' 70), EntityId 7]
        \<in> set (query (addComponent (addComponent example_store 7 (Component ''body'' 70)) 7 (Component ''shape'' 71))
                 [''shape'', ''body''])"
proof -
  let ?b = "Component ''body'' (70::nat)"
  let ?s = "Component ''shape'' (71::nat)"
  let ?app = "addComponent example_store 7 ?b"
  note t = addComponent_ignores_liveness[of ?app 7 ?s 7 "''body''" "[''body'']"]
  have l: "7 \<notin> set (getEntities example_store)"
    by (simp add: getEntities_example_store)
  have l': "7 \<notin> set (getEntities (addComponent ?app 7 ?s))"
    using t l by (simp add: getEntities_addComponent)
  have hs: "hasComponent (addComponent ?app 7 ?s) 7 ''shape''"
    using t by simp
  have gb: "getComponent (addComponent ?app 7 ?s) 7 ''body'' = Some ?b"
    using t by (simp add: getComponent_addComponent)
  then have hb: "list_all (hasComponent (addComponent ?app 7 ?s) 7) [''body'']"
    by (simp add: hasComponent_iff)
  have gs: "getComponent (addComponent ?app 7 ?s) 7 ''shape'' = Some ?s"
    by (simp add: getComponent_addComponent)
  have "tuple_of (addComponent ?app 7 ?s) [''shape'', ''body''] 7
          \<in> set (query (addComponent ?app 7 ?s) [''shape'', ''body''])"
    using t hb by simp
  then have q: "[CompRef ?s, CompRef ?b, EntityId 7]
      \<in> set (query (addComponent ?app 7 ?s) [''shape'', ''body''])"
    by (simp add: tuple_of_def gb gs slot_of_def)
  show ?thesis
    using l l' hs hb q by (intro conjI)
qed

text \<open>
  C2 (as amended). For every state, every list of type tags and every heap the generator
  starts in: the tuples a consumer reads from \<open>queryIter\<close> when it copies each yielded
  tuple before advancing the generator are, element for element, the result of
  \<open>query\<close>. A consumer that keeps the yielded references and reads them after the
  generator has finished sees, at every position, the last tuple of the result of
  \<open>query\<close>, as many times as the result is long.
\<close>

theorem queryIter_copied_equals_query:
  "copy_each_queryIter app types h0 = query app types
   \<and> Array_from_queryIter app types h0 =
       replicate (length (query app types)) (last (query app types))"
  by (simp add: copy_each_queryIter_eq Array_from_queryIter_eq)

text \<open>
  C2 as stated fails when the lazy query is drained into an array, as
  \<open>Array.from(app.queryIter(['shape']))\<close> does on the example store: the three
  elements are the one buffer, which holds the tuple of entity 2.
\<close>

theorem queryIter_collected_counterexample:
  "Array_from_queryIter example_store [''shape''] [] =
     [[CompRef (Component ''shape'' 31), EntityId 2],
      [CompRef (Component ''shape'' 31), EntityId 2],
      [CompRef (Component ''shape'' 31), EntityId 2]]
   \<and> Array_from_queryIter example_store [''shape''] [] \<noteq> query example_store [''shape'']"
  by (simp add: Array_from_queryIter_eq query_example_store_shape numeral_3_eq_3)

text \<open>
  C5 (as amended). \<open>addEntity\<close> returns the current value of the counter; it adds one
  to the counter while the counter is below \<open>2^53\<close> and leaves it at \<open>2^53\<close> once it
  is there. \<open>removeEntity\<close>, \<open>clearEntities\<close> and \<open>clear\<close> leave the counter as it
  is. So along any sequence of public operations, from any state, in which the counter's
  first value plus the number of ids returned does not exceed \<open>2^53\<close>, the ids returned
  by the \<open>addEntity\<close> calls are the consecutive numbers from the counter's first value
  on: each is greater than all the ids returned before it, and none is returned twice.
\<close>

theorem entity_ids_increase_below_limit:
  "fst (addEntity app comps) = nextId app
   \<and> nextId (snd (addEntity app comps)) =
        (if nextId app < 2 ^ 53 then nextId app + 1 else nextId app)
   \<and> nextId (removeEntity app e) = nextId app
   \<and> nextId (clearEntities app) = nextId app
   \<and> nextId (clear app) = nextId app
   \<and> (nextId app + length (fst (run_ops ops app)) \<le> 2 ^ 53 \<longrightarrow>
        fst (run_ops ops app) = [nextId app ..< nextId app + length (fst (run_ops ops app))]
        \<and> nextId (snd (run_ops ops app)) = nextId app + length (fst (run_ops ops app))
        \<and> sorted_wrt (<) (fst (run_ops ops app))
        \<and> distinct (fst (run_ops ops app)))"
proof -
  have "fst (run_ops ops app) = [nextId app ..< nextId app + length (fst (run_ops ops app))]
      \<and> nextId (snd (run_ops ops app)) = nextId app + length (fst (run_ops ops app))
      \<and> sorted_wrt (<) (fst (run_ops ops app))
      \<and> distinct (fst (run_ops ops app))"
    if "nextId app + length (fst (run_ops ops app)) \<le> 2 ^ 53"
  proof -
    from that have "nextId app + length (fst (run_ops ops app)) \<le> float_exact_limit"
      by (simp add: float_exact_limit_def)
    from run_ops_ids_below_limit[OF this]
    have eq: "fst (run_ops ops app) = [nextId app ..< nextId app + length (fst (run_ops ops app))]"
      and n: "nextId (snd (run_ops ops app)) = nextId app + length (fst (run_ops ops app))"
      by simp_all
    have "sorted_wrt (<) (fst (run_ops ops app))" and "distinct (fst (run_ops ops app))"
      by (subst eq, simp)+
    with eq n show ?thesis
      by (intro conjI)
  qed
  then show ?thesis
    by (simp add: addEntity_id nextId_addEntity nextId_removeEntity nextId_clearEntities
        nextId_clear js_increment_def float_exact_limit_def)
qed

theorem entity_ids_increase_below_limit_witness:
  "nextId (createApp () :: (nat, unit, unit) app)
     + length (fst (run_ops [AddEntity [], RemoveEntity 0, ClearEntities, Clear, AddEntity []]
         (createApp () :: (nat, unit, unit) app))) \<le> 2 ^ 53
   \<and> fst (run_ops [AddEntity [], RemoveEntity 0, ClearEntities, Clear, AddEntity []]
         (createApp () :: (nat, unit, unit) app)) = [0, 1]
   \<and> sorted_wrt (<)
        (fst (run_ops [AddEntity [], RemoveEntity 0, ClearEntities, Clear, AddEntity []]
           (createApp () :: (nat, unit, unit) app)))"
proof -
  let ?app = "createApp () :: (nat, unit, unit) app"
  let ?ops = "[AddEntity [], RemoveEntity 0, ClearEntities, Clear, AddEntity []] :: (nat, unit) op list"
  have ids: "fst (run_ops ?ops ?app) = [0, 1]"
    by (simp add: run_ops_unfold addEntity_id nextId_addEntity nextId_removeEntity
        nextId_clearEntities nextId_clear js_increment_def float_exact_limit_def createApp_def)
  have n0: "nextId ?app = 0"
    by (simp add: createApp_def)
  have len: "length (fst (run_ops ?ops ?app)) = 2"
    by (simp only: ids) simp
  have hyp: "nextId ?app + length (fst (run_ops ?ops ?app)) \<le> 2 ^ 53"
    by (simp only: n0 len) simp
  have "sorted_wrt (<) (fst (run_ops ?ops ?app))"
    using entity_ids_increase_below_limit[of ?app "[]" 0 ?ops] hyp by blast
  with hyp ids show ?thesis
    by (intro conjI)
qed

text \<open>
  C5 as stated fails at the end of the range of exact integers: after \<open>2^53\<close> calls
  of \<open>addEntity\<close> on a new application the counter is \<open>2^53\<close>, where \<open>++\<close> no longer
  changes it, and the next two calls both return \<open>2^53\<close>.
\<close>

theorem addEntity_repeats_id_counterexample:
  "float_exact_limit = 2 ^ 53
   \<and> fst (run_ops [AddEntity [], AddEntity []]
          (snd (run_ops (replicate float_exact_limit (AddEntity []))
                 (createApp () :: (nat, unit, unit) app))))
       = [float_exact_limit, float_exact_limit]
   \<and> \<not> distinct (fst (run_ops [AddEntity [], AddEntity []]
          (snd (run_ops (replicate float_exact_limit (AddEntity []))
                 (createApp () :: (nat, unit, unit) app)))))"
proof -
  let ?app = "snd (run_ops (replicate float_exact_limit (AddEntity []))
                 (createApp () :: (nat, unit, unit) app))"
  have "nextId (createApp () :: (nat, unit, unit) app) \<le> float_exact_limit"
    by (simp add: createApp_def)
  from nextId_run_ops_replicate_AddEntity[OF this, of float_exact_limit "[]"]
  have n: "nextId ?app = float_exact_limit"
    by (simp add: createApp_def)
  have "fst (run_ops [AddEntity [], AddEntity []] ?app) = [nextId ?app, js_increment (nextId ?app)]"
    by (simp add: run_ops_unfold addEntity_id nextId_addEntity)
  then have ids: "fst (run_ops [AddEntity [], AddEntity []] ?app) =
      [float_exact_limit, float_exact_limit]"
    by (simp only: n) (simp add: js_increment_def)
  have "\<not> distinct (fst (run_ops [AddEntity [], AddEntity []] ?app))"
    by (simp only: ids) simp
  with ids show ?thesis
    by (simp only: float_exact_limit_def) simp
qed

text \<open>
  C7. The first \<open>get\<close> of a wrapper made by \<open>cacheQuery q\<close> returns the result of the
  eager query on the state it is given and stores it. A \<open>get\<close> of a wrapper that holds
  a stored result returns that result and keeps it, whatever state it is given. After
  \<open>invalidate\<close> the next \<open>get\<close> returns the result of the eager query on the state it
  is given.
\<close>

theorem cacheQuery_memoizes_until_invalidated:
  "cq_get (cacheQuery q) app = (query app q, \<lparr>cq_query = q, cache = Some (query app q)\<rparr>)
   \<and> cq_get (snd (cq_get (cacheQuery q) app)) app' = (query app q, snd (cq_get (cacheQuery q) app))
   \<and> cq_get (cq_invalidate (snd (cq_get (cacheQuery q) app))) app' =
        (query app' q, \<lparr>cq_query = q, cache = Some (query app' q)\<rparr>)
   \<and> cq_get (c\<lparr>cache := Some r\<rparr>) app' = (r, c\<lparr>cache := Some r\<rparr>)
   \<and> fst (cq_get (cq_invalidate c) app') = query app' (cq_query c)"
  by (simp add: cq_get_def cacheQuery_def cq_invalidate_def Let_def)

theorem cacheQuery_memoizes_until_invalidated_witness:
  "fst (cq_get (snd (cq_get (cacheQuery [''shape'']) example_store))
          (addComponent example_store 7 (Component ''shape'' 71)))
     = query example_store [''shape'']
   \<and> query (addComponent example_store 7 (Component ''shape'' 71)) [''shape'']
       \<noteq> query example_store [''shape'']
   \<and> fst (cq_get (cq_invalidate (snd (cq_get (cacheQuery [''shape'']) example_store)))
            (addComponent example_store 7 (Component ''shape'' 71)))
       = query (addComponent example_store 7 (Component ''shape'' 71)) [''shape'']"
proof -
  let ?app' = "addComponent example_store 7 (Component ''shape'' 71)"
  let ?c = "snd (cq_get (cacheQuery [''shape'']) example_store)"
  note t = cacheQuery_memoizes_until_invalidated[where q = "[''shape'']"
      and app = example_store and app' = ?app' and c = "cacheQuery []" and r = "[]"]
  have stale: "cq_get ?c ?app' = (query example_store [''shape''], ?c)"
    using t by (elim conjE)
  have fresh: "cq_get (cq_invalidate ?c) ?app' =
      (query ?app' [''shape''], \<lparr>cq_query = [''shape''], cache = Some (query ?app' [''shape''])\<rparr>)"
    using t by (elim conjE)
  have "tuple_of ?app' [''shape''] 7 \<in> set (query ?app' [''shape''])"
    by (intro tuple_in_query) (simp add: hasComponent_iff getComponent_addComponent)
  moreover have "tuple_of ?app' [''shape''] 7 \<notin> set (query example_store [''shape''])"
    by (simp add: query_example_store_shape tuple_of_def)
  ultimately have "query ?app' [''shape''] \<noteq> query example_store [''shape'']"
    by auto
  then show ?thesis
    by (simp only: stale fresh fst_conv) simp
qed

text \<open>
  C10. The system made by \<open>combineSystems\<close> from a list of systems does to a state what
  the systems do one after the other, in the order of the list; made from no system it
  leaves the state as it is.
\<close>

theorem combineSystems_is_sequential_composition:
  "combineSystems syss app = fold (\<lambda>s. s) syss app
   \<and> combineSystems [] app = app
   \<and> combineSystems (s # syss) app = combineSystems syss (s app)
   \<and> combineSystems (syss @ syss') app = combineSystems syss' (combineSystems syss app)"
  by (simp add: combineSystems_def combineSystems_loop_eq)

text \<open>
  C6 (as amended). When no system changes the list of per-step systems or the list of
  startup systems of the application it is called on: \<open>step\<close> returns, the calls it
  made are the per-step systems, each once, in list order and nothing else, each on the
  state the one before left; \<open>n\<close> calls of \<open>step\<close> make these calls \<open>n\<close> times over;
  \<open>run\<close> calls the startup systems, each once and in list order, and then, if the
  application is still running, makes one step and asks for the next frame; and a
  \<open>run\<close> followed by \<open>n\<close> calls of \<open>step\<close> makes the startup calls once, before
  all the per-step calls.
\<close>

theorem step_calls_each_system_once:
  assumes "registry_stable sem"
  shows "step sem app = Some (systems app, fold sem (systems app) app)
    \<and> steps sem n app =
        Some (concat (replicate n (systems app)), (fold sem (systems app) ^^ n) app)
    \<and> (let a0 = fold sem (startupSystems app) (app\<lparr>running := True\<rparr>)
        in run sem app =
             Some (startupSystems app @ (if running a0 then systems app else []),
                   if running a0 then fold sem (systems app) a0 else a0,
                   running a0)
           \<and> map_option fst (run_then_steps sem n app) =
               Some (startupSystems app @
                     concat (replicate (if running a0 then Suc n else n) (systems app))))"
proof -
  let ?a0 = "fold sem (startupSystems app) (app\<lparr>running := True\<rparr>)"
  have same0: "systems ?a0 = systems app"
    using fold_stable[OF assms, of "startupSystems app" "app\<lparr>running := True\<rparr>"] by simp
  have same1: "systems (fold sem (systems app) ?a0) = systems app"
    using fold_stable[OF assms, of "systems app" ?a0] same0 by simp
  show ?thesis
    by (simp add: step_stable[OF assms] steps_stable[OF assms] run_stable[OF assms]
        run_then_steps_def Let_def same0 same1)
qed

theorem step_calls_each_system_once_witness:
  "registry_stable spawner_sem
   \<and> step spawner_sem startup_and_system = Some ([1], spawner_sem 1 startup_and_system)
   \<and> map_option fst (run_then_steps spawner_sem 3 startup_and_system) = Some [0, 1, 1, 1, 1]"
proof -
  note t = step_calls_each_system_once[OF registry_stable_spawner_sem, of startup_and_system 3]
  have s: "systems startup_and_system = [1]" "startupSystems startup_and_system = [0]"
    by (simp_all add: startup_and_system_def addSystem_def addStartupSystem_def createApp_def)
  have r: "running (spawner_sem 0 (startup_and_system\<lparr>running := True\<rparr>))"
    by (simp add: spawner_sem_def addEntity_unfold)
  have 1: "step spawner_sem startup_and_system = Some ([1], spawner_sem 1 startup_and_system)"
    using t by (simp add: s)
  have 2: "map_option fst (run_then_steps spawner_sem 3 startup_and_system) = Some [0, 1, 1, 1, 1]"
    using t r by (simp add: s Let_def numeral_3_eq_3)
  show ?thesis
    using registry_stable_spawner_sem 1 2 by (intro conjI)
qed

text \<open>
  C6 as stated fails when a system changes the list during the step: with the per-step
  systems 0 and 1 registered, where system 0 removes itself, \<open>step\<close> calls system 0,
  finds the list one shorter at index 1 and returns without calling system 1.
\<close>

theorem step_skips_system_counterexample:
  "systems two_systems = [0, 1]
   \<and> step remover_sem two_systems = Some ([0], removeSystem two_systems 0 False)
   \<and> map_option fst (step remover_sem two_systems) \<noteq> Some (systems two_systems)"
proof -
  have s: "systems two_systems = [0, 1]"
    by (simp add: two_systems_def addSystem_def createApp_def)
  have s': "systems (removeSystem two_systems 0 False) = [1]"
    by (simp add: removeSystem_def s)
  have "step remover_sem two_systems = Some ([0], removeSystem two_systems 0 False)"
    unfolding step_def
    apply (subst step_loop.simps)
    apply (simp add: s remover_sem_def)
    apply (subst step_loop.simps)
    apply (simp add: s')
    done
  with s show ?thesis
    by simp
qed

end
